theory Spec2Isabelle
  imports Main
begin

section \<open>Characters and Python exceptions\<close>

text \<open>
  A text is a Python \<open>str\<close> whose code points are all below 256; the character
  \<open>c\<close> stands for the code point \<open>of_char c\<close>. On this range \<^verbatim>\<open>\d\<close>, \<^verbatim>\<open>[0-9]\<close> and
  the characters accepted by \<^verbatim>\<open>int(dig)\<close> coincide (code points 48 to 57), and
  \<^verbatim>\<open>\w\<close> is the set listed in \<open>is_word\<close>: the ASCII digits and letters, the
  underscore, and the letters and numeric characters of the Latin-1 supplement.
\<close>

datatype error = ValueError | TypeError | KeyError | TimeoutError | WorkerError

definition code :: "char \<Rightarrow> nat" where
  "code c = of_char c"

definition is_digit :: "char \<Rightarrow> bool" where
  "is_digit c = (48 \<le> code c \<and> code c \<le> 57)"

definition in_range :: "char \<Rightarrow> char \<Rightarrow> char \<Rightarrow> bool" where
  "in_range lo hi c = (code lo \<le> code c \<and> code c \<le> code hi)"

definition is_word :: "char \<Rightarrow> bool" where
  "is_word c =
     (let n = code c in
        (48 \<le> n \<and> n \<le> 57) \<or> (65 \<le> n \<and> n \<le> 90) \<or> n = 95 \<or> (97 \<le> n \<and> n \<le> 122)
        \<or> n = 170 \<or> n = 178 \<or> n = 179 \<or> n = 181 \<or> n = 185 \<or> n = 186
        \<or> n = 188 \<or> n = 189 \<or> n = 190
        \<or> (192 \<le> n \<and> n \<le> 214) \<or> (216 \<le> n \<and> n \<le> 246) \<or> 248 \<le> n)"

section \<open>The Luhn checksum (\<open>luhn_checksum\<close>, lines 22 to 32)\<close>

text \<open>\<^verbatim>\<open>int(dig)\<close> on a one-character string: the digit's value, or
  \<open>ValueError\<close>.\<close>

definition int_of_char :: "char \<Rightarrow> error + int" where
  "int_of_char c = (if is_digit c then Inr (int (code c) - 48) else Inl ValueError)"

text \<open>\<^verbatim>\<open>[int(dig) for dig in str(n)]\<close>: the first character that is no digit
  raises.\<close>

fun digits_of :: "string \<Rightarrow> error + int list" where
  "digits_of [] = Inr []"
| "digits_of (c # cs) =
     (case int_of_char c of
        Inl e \<Rightarrow> Inl e
      | Inr d \<Rightarrow> (case digits_of cs of Inl e \<Rightarrow> Inl e | Inr ds \<Rightarrow> Inr (d # ds)))"

text \<open>\<^verbatim>\<open>str(n)\<close> on an integer: its decimal numeral.\<close>

definition digit_char :: "nat \<Rightarrow> char" where
  "digit_char n = char_of (48 + n)"

fun str_nat :: "nat \<Rightarrow> string" where
  "str_nat n = (if n < 10 then [digit_char n] else str_nat (n div 10) @ [digit_char (n mod 10)])"

declare str_nat.simps [simp del]

definition str_int :: "int \<Rightarrow> string" where
  "str_int i = (if i < 0 then CHR ''-'' # str_nat (nat (- i)) else str_nat (nat i))"

text \<open>\<^verbatim>\<open>xs[0::2]\<close>. The two slices of the source walk the list from its end:
  \<^verbatim>\<open>digits[-1::-2]\<close> is \<open>every_other (rev digits)\<close> and \<^verbatim>\<open>digits[-2::-2]\<close> is
  \<open>every_other (drop 1 (rev digits))\<close> (empty when there are fewer than two digits).\<close>

fun every_other :: "'a list \<Rightarrow> 'a list" where
  "every_other [] = []"
| "every_other [x] = [x]"
| "every_other (x # y # xs) = x # every_other xs"

text \<open>The loop \<^verbatim>\<open>for d in even_digits: checksum += sum(digits_of(str(d * 2)))\<close>.\<close>

fun add_doubled :: "int list \<Rightarrow> int \<Rightarrow> error + int" where
  "add_doubled [] checksum = Inr checksum"
| "add_doubled (d # ds) checksum =
     (case digits_of (str_int (d * 2)) of
        Inl e \<Rightarrow> Inl e
      | Inr xs \<Rightarrow> add_doubled ds (checksum + sum_list xs))"

definition luhn_checksum :: "string \<Rightarrow> error + bool" where
  "luhn_checksum sanitized_value =
     (case digits_of sanitized_value of
        Inl e \<Rightarrow> Inl e
      | Inr digits \<Rightarrow>
          (let odd_digits = every_other (rev digits);
               even_digits = every_other (drop 1 (rev digits))
           in case add_doubled even_digits (sum_list odd_digits) of
                Inl e \<Rightarrow> Inl e
              | Inr checksum \<Rightarrow> Inr (checksum mod 10 = 0)))"

text \<open>The checksum in the words of the specification, on the digits listed from the
  rightmost one: the first, third, ... are added as they are; the second, fourth, ...
  are doubled, and a doubled value above 9 is replaced by the sum of its two digits.\<close>

definition doubled_value :: "int \<Rightarrow> int" where
  "doubled_value d = (if d * 2 > 9 then (d * 2) div 10 + (d * 2) mod 10 else d * 2)"

fun luhn_total :: "int list \<Rightarrow> int" where
  "luhn_total [] = 0"
| "luhn_total [d] = d"
| "luhn_total (d # e # ds) = d + doubled_value e + luhn_total ds"

definition luhn_spec :: "int list \<Rightarrow> bool" where
  "luhn_spec digits = (luhn_total (rev digits) mod 10 = 0)"

section \<open>Regular expressions with Python's backtracking order\<close>

text \<open>
  The two patterns of the source use literal characters, character classes, \<^verbatim>\<open>\b\<close>,
  concatenation, alternation, \<^verbatim>\<open>?\<close> and bounded repetition \<^verbatim>\<open>{m,n}\<close> (all greedy).
  A position in the text is the pair of the text before it, reversed, and the text
  after it. \<open>run r p\<close> lists the positions at which a match of \<open>r\<close> started at \<open>p\<close>
  can end, in the order in which the backtracking matcher of \<^verbatim>\<open>re\<close> tries them:
  the left alternative before the right one, one more repetition before one fewer.
\<close>

datatype regex =
    Eps
  | Atom "char \<Rightarrow> bool"
  | WordB
  | Seq regex regex
  | Alt regex regex
  | Opt regex

type_synonym pos = "string \<times> string"

definition Chr :: "char \<Rightarrow> regex" where
  "Chr c = Atom (\<lambda>x. x = c)"

definition Digit :: regex where
  "Digit = Atom is_digit"

definition Range :: "char \<Rightarrow> char \<Rightarrow> regex" where
  "Range lo hi = Atom (in_range lo hi)"

definition OneOf :: "string \<Rightarrow> regex" where
  "OneOf cs = Atom (\<lambda>x. x \<in> set cs)"

fun seqs :: "regex list \<Rightarrow> regex" where
  "seqs [] = Eps"
| "seqs (r # rs) = Seq r (seqs rs)"

fun opts :: "nat \<Rightarrow> regex \<Rightarrow> regex" where
  "opts 0 r = Eps"
| "opts (Suc n) r = Opt (Seq r (opts n r))"

text \<open>\<^verbatim>\<open>r{lo,hi}\<close>: \<open>lo\<close> copies, then up to \<open>hi - lo\<close> more, as many as possible first.\<close>

definition Rep :: "nat \<Rightarrow> nat \<Rightarrow> regex \<Rightarrow> regex" where
  "Rep lo hi r = Seq (seqs (replicate lo r)) (opts (hi - lo) r)"

fun word_at :: "string \<Rightarrow> bool" where
  "word_at [] = False"
| "word_at (c # cs) = is_word c"

text \<open>\<^verbatim>\<open>\b\<close>: exactly one of the characters before and after the position is a word
  character (the start and the end of the text count as non-word).\<close>

definition at_boundary :: "pos \<Rightarrow> bool" where
  "at_boundary p = (word_at (fst p) \<noteq> word_at (snd p))"

fun run :: "regex \<Rightarrow> pos \<Rightarrow> pos list" where
  "run Eps p = [p]"
| "run (Atom P) p =
     (case snd p of [] \<Rightarrow> [] | c # a \<Rightarrow> if P c then [(c # fst p, a)] else [])"
| "run WordB p = (if at_boundary p then [p] else [])"
| "run (Seq r1 r2) p = concat (map (run r2) (run r1 p))"
| "run (Alt r1 r2) p = run r1 p @ run r2 p"
| "run (Opt r) p = run r p @ [p]"

text \<open>\<^verbatim>\<open>pattern.search(text)\<close>: the start positions are tried from the left; at the
  first one where the pattern matches, the first way of matching is taken. The result
  is group 0, the matched text.\<close>

fun search_from :: "regex \<Rightarrow> string \<Rightarrow> string \<Rightarrow> string option" where
  "search_from r b [] =
     (case run r (b, []) of [] \<Rightarrow> None | q # _ \<Rightarrow> Some [])"
| "search_from r b (c # a) =
     (case run r (b, c # a) of
        [] \<Rightarrow> search_from r (c # b) a
      | q # _ \<Rightarrow> Some (take (length (c # a) - length (snd q)) (c # a)))"

definition search :: "regex \<Rightarrow> string \<Rightarrow> string option" where
  "search r text = search_from r [] text"

subsection \<open>The two patterns (lines 18 and 20)\<close>

text \<open>\<^verbatim>\<open>\b([0-9]{3})[- .]([0-9]{2})[- .]([0-9]{4})\b\<close>\<close>

definition ssn_body :: regex where
  "ssn_body =
     seqs [Rep 3 3 (Range CHR ''0'' CHR ''9''), OneOf ''- .'',
           Rep 2 2 (Range CHR ''0'' CHR ''9''), OneOf ''- .'',
           Rep 4 4 (Range CHR ''0'' CHR ''9'')]"

definition social_security_regex :: regex where
  "social_security_regex = Seq WordB (Seq ssn_body WordB)"

text \<open>\<^verbatim>\<open>\b((4\d{3})|(5[0-5]\d{2})|(6\d{3})|(1\d{3})|(3\d{3}))[- ]?(\d{3,4})[- ]?(\d{3,4})[- ]?(\d{3,5})\b\<close>\<close>

definition cc_prefix :: regex where
  "cc_prefix =
     Alt (Seq (Chr CHR ''4'') (Rep 3 3 Digit))
    (Alt (Seq (Chr CHR ''5'') (Seq (Range CHR ''0'' CHR ''5'') (Rep 2 2 Digit)))
    (Alt (Seq (Chr CHR ''6'') (Rep 3 3 Digit))
    (Alt (Seq (Chr CHR ''1'') (Rep 3 3 Digit))
         (Seq (Chr CHR ''3'') (Rep 3 3 Digit)))))"

definition cc_body :: regex where
  "cc_body =
     seqs [cc_prefix, Opt (OneOf ''- ''), Rep 3 4 Digit, Opt (OneOf ''- ''), Rep 3 4 Digit,
           Opt (OneOf ''- ''), Rep 3 5 Digit]"

definition weak_credit_card_regex :: regex where
  "weak_credit_card_regex = Seq WordB (Seq cc_body WordB)"

section \<open>The extraction client (\<open>content_scan\<close>, lines 45 to 62)\<close>

text \<open>What \<^verbatim>\<open>parser.from_file(file_path)\<close> does: it raises, or it returns a dictionary
  whose entries \<^verbatim>\<open>'status'\<close> and \<^verbatim>\<open>'content'\<close> are read with \<^verbatim>\<open>.get\<close> (\<open>None\<close> when
  absent).\<close>

datatype tika_response = Raises | Response "int option" "string option"

text \<open>\<^verbatim>\<open>not parsed_content\<close>: \<open>None\<close> and the empty string.\<close>

definition falsy :: "string option \<Rightarrow> bool" where
  "falsy c = (c = None \<or> c = Some [])"

definition content_scan :: "(string \<Rightarrow> tika_response) \<Rightarrow> string \<Rightarrow> string \<times> string option" where
  "content_scan from_file file_path =
     (case from_file file_path of
        Raises \<Rightarrow> (''NA'', Some [])
      | Response status content \<Rightarrow>
          (let parse_status = ''Y'';
               parse_status =
                 (if status \<noteq> Some 200
                  then (if status = Some 204 then ''N'' else ''NA'')
                  else parse_status);
               parsed_content = content;
               parse_status = (if falsy parsed_content then ''N'' else parse_status)
           in (parse_status, parsed_content)))"

section \<open>The detectors and the orchestrator (\<open>main_file_scan_interface\<close>, lines 64 to 100)\<close>

text \<open>Line 83: \<^verbatim>\<open>social_security_regex.search(file_content)\<close> as a truth value.\<close>

definition social_security_detect :: "string \<Rightarrow> bool" where
  "social_security_detect file_content = (search social_security_regex file_content \<noteq> None)"

text \<open>\<^verbatim>\<open>s.replace(c, "")\<close> for a one-character \<open>c\<close>.\<close>

definition remove_char :: "char \<Rightarrow> string \<Rightarrow> string" where
  "remove_char c s = filter (\<lambda>x. x \<noteq> c) s"

text \<open>Lines 88 to 91: both separators are removed from the match.\<close>

definition sanitize :: "string \<Rightarrow> string" where
  "sanitize possible_cc_number =
     (let s = (if CHR ''-'' \<in> set possible_cc_number
               then remove_char CHR ''-'' possible_cc_number else possible_cc_number)
      in if CHR '' '' \<in> set s then remove_char CHR '' '' s else s)"

text \<open>Lines 86 to 94: the first match of the weak pattern, and only it, goes through
  the checksum.\<close>

definition credit_card_detect :: "string \<Rightarrow> error + bool" where
  "credit_card_detect file_content =
     (case search weak_credit_card_regex file_content of
        None \<Rightarrow> Inr False
      | Some possible_cc_number \<Rightarrow> luhn_checksum (sanitize possible_cc_number))"

record file_info =
  scanned :: string
  credit_card_found :: bool
  social_security_found :: bool

record report_entry =
  report_credit_card_found :: string
  report_social_security_found :: string

type_synonym scan_state = "(string \<rightharpoonup> file_info) \<times> (string \<rightharpoonup> report_entry)"

text \<open>
  The world around one run: \<open>walk\<close>, the list \<^verbatim>\<open>scan_directory_for_files(scan_dir)\<close>
  returns on line 65; \<open>from_file\<close>, what the extraction service does for each path;
  \<open>worker_fails\<close>, whether the future of a path raises from \<^verbatim>\<open>result()\<close>; and
  \<open>completed\<close>, the futures that \<^verbatim>\<open>as_completed(file_scan_jobs, 180)\<close> yields, in
  completion order: those that complete within the 180 seconds. When a submitted future
  is not among them, the iterator raises \<open>TimeoutError\<close> after the last of them. A
  future is named by its path.
\<close>

record world =
  walk :: "string list"
  from_file :: "string \<Rightarrow> tika_response"
  worker_fails :: "string \<Rightarrow> bool"
  completed :: "string list"

definition future_result :: "world \<Rightarrow> string \<Rightarrow> error + (string \<times> string option)" where
  "future_result w file_path =
     (if worker_fails w file_path then Inl WorkerError
      else Inr (content_scan (from_file w) file_path))"

definition yes_no :: "bool \<Rightarrow> string" where
  "yes_no b = (if b then ''Yes'' else ''No'')"

text \<open>Lines 82 to 94 on one file: the updated \<open>file_info\<close> and \<open>flag_file\<close>. A content
  of \<open>None\<close> would make \<^verbatim>\<open>search\<close> raise \<open>TypeError\<close>.\<close>

definition detect :: "string \<Rightarrow> string option \<Rightarrow> file_info \<Rightarrow> error + (file_info \<times> bool)" where
  "detect content_scan_status file_content info =
     (if content_scan_status = ''Y'' then
        (case file_content of
           None \<Rightarrow> Inl TypeError
         | Some text \<Rightarrow>
             (let (info1, flag1) =
                    (if social_security_detect text
                     then (info\<lparr>social_security_found := True\<rparr>, True)
                     else (info, False))
              in case credit_card_detect text of
                   Inl e \<Rightarrow> Inl e
                 | Inr found \<Rightarrow>
                     if found then Inr (info1\<lparr>credit_card_found := True\<rparr>, True)
                     else Inr (info1, flag1)))
      else Inr (info, False))"

text \<open>One iteration of the loop of line 72 (lines 73 to 99).\<close>

definition scan_future :: "world \<Rightarrow> string \<Rightarrow> scan_state \<Rightarrow> error + scan_state" where
  "scan_future w file_path st =
     (let (file_paths_dict, flagged_files_report_dict) = st;
          (content_scan_status, file_content) =
            (case future_result w file_path of
               Inl e \<Rightarrow> (''NA'', Some [])
             | Inr r \<Rightarrow> r)
      in case file_paths_dict file_path of
           None \<Rightarrow> Inl KeyError
         | Some info0 \<Rightarrow>
             (case detect content_scan_status file_content (info0\<lparr>scanned := content_scan_status\<rparr>) of
                Inl e \<Rightarrow> Inl e
              | Inr (info, flag_file) \<Rightarrow>
                  Inr (file_paths_dict(file_path \<mapsto> info),
                       if flag_file
                       then flagged_files_report_dict(file_path \<mapsto>
                              \<lparr>report_credit_card_found = yes_no (credit_card_found info),
                               report_social_security_found = yes_no (social_security_found info)\<rparr>)
                       else flagged_files_report_dict)))"

fun scan_futures :: "world \<Rightarrow> string list \<Rightarrow> scan_state \<Rightarrow> error + scan_state" where
  "scan_futures w [] st = Inr st"
| "scan_futures w (file_path # rest) st =
     (case scan_future w file_path st of
        Inl e \<Rightarrow> Inl e
      | Inr st' \<Rightarrow> scan_futures w rest st')"

definition initial_info :: file_info where
  "initial_info = \<lparr>scanned = [], credit_card_found = False, social_security_found = False\<rparr>"

text \<open>The run up to the end of the iteration: both dictionaries, or the exception that
  leaves the function. Nothing catches the \<open>TimeoutError\<close> of \<^verbatim>\<open>as_completed\<close>, raised
  once the completed futures are processed and another one is still pending.\<close>

definition scan_run :: "world \<Rightarrow> error + scan_state" where
  "scan_run w =
     (let file_paths = walk w;
          file_paths_dict = map_of (map (\<lambda>file_path. (file_path, initial_info)) file_paths)
      in if file_paths \<noteq> [] then
           (case scan_futures w (completed w) (file_paths_dict, Map.empty) of
              Inl e \<Rightarrow> Inl e
            | Inr st \<Rightarrow>
                if set file_paths \<subseteq> set (completed w) then Inr st else Inl TimeoutError)
         else Inr (file_paths_dict, Map.empty))"

definition main_file_scan_interface :: "world \<Rightarrow> error + (string \<rightharpoonup> report_entry)" where
  "main_file_scan_interface w =
     (case scan_run w of Inl e \<Rightarrow> Inl e | Inr st \<Rightarrow> Inr (snd st))"

section \<open>A declarative account of the two patterns\<close>

text \<open>
  The language of a pattern without \<^verbatim>\<open>\b\<close>, and the shapes of the strings the two
  patterns accept, written out: these are what the theorems compare \<open>run\<close> and
  \<open>search\<close> with.
\<close>

fun wb_free :: "regex \<Rightarrow> bool" where
  "wb_free Eps = True"
| "wb_free (Atom P) = True"
| "wb_free WordB = False"
| "wb_free (Seq r1 r2) = (wb_free r1 \<and> wb_free r2)"
| "wb_free (Alt r1 r2) = (wb_free r1 \<and> wb_free r2)"
| "wb_free (Opt r) = wb_free r"

definition conc :: "string set \<Rightarrow> string set \<Rightarrow> string set" where
  "conc A B = {u @ v | u v. u \<in> A \<and> v \<in> B}"

fun lang :: "regex \<Rightarrow> string set" where
  "lang Eps = {[]}"
| "lang (Atom P) = {[c] | c. P c}"
| "lang WordB = {}"
| "lang (Seq r1 r2) = conc (lang r1) (lang r2)"
| "lang (Alt r1 r2) = lang r1 \<union> lang r2"
| "lang (Opt r) = insert [] (lang r)"

definition no_word_before :: "string \<Rightarrow> bool" where
  "no_word_before pre = (pre = [] \<or> \<not> is_word (last pre))"

definition no_word_after :: "string \<Rightarrow> bool" where
  "no_word_after suf = (suf = [] \<or> \<not> is_word (hd suf))"

definition digit_group :: "nat \<Rightarrow> nat \<Rightarrow> string \<Rightarrow> bool" where
  "digit_group lo hi g = (lo \<le> length g \<and> length g \<le> hi \<and> list_all is_digit g)"

definition optional_sep :: "string \<Rightarrow> bool" where
  "optional_sep s = (s = [] \<or> s = ''-'' \<or> s = '' '')"

definition weak_prefix :: "string \<Rightarrow> bool" where
  "weak_prefix p =
     (digit_group 4 4 p \<and>
      (hd p \<in> set ''4613'' \<or> (hd p = CHR ''5'' \<and> in_range CHR ''0'' CHR ''5'' (p ! 1))))"

definition cc_shape :: "string \<Rightarrow> bool" where
  "cc_shape m =
     (\<exists>p s1 g2 s2 g3 s3 g4.
        m = p @ s1 @ g2 @ s2 @ g3 @ s3 @ g4 \<and> weak_prefix p \<and>
        optional_sep s1 \<and> digit_group 3 4 g2 \<and>
        optional_sep s2 \<and> digit_group 3 4 g3 \<and>
        optional_sep s3 \<and> digit_group 3 5 g4)"



text \<open>A pattern body whose matches all begin and end with a word character: around
  such a match \<^verbatim>\<open>\b\<close> holds exactly when the neighbouring characters are not word
  characters.\<close>

definition token_lang :: "regex \<Rightarrow> bool" where
  "token_lang r = (wb_free r \<and> (\<forall>m \<in> lang r. m \<noteq> [] \<and> is_word (hd m) \<and> is_word (last m)))"

text \<open>The number of digits in a string.\<close>

definition ndig :: "string \<Rightarrow> nat" where
  "ndig w = length (filter is_digit w)"

text \<open>A credit-card candidate \<open>m\<close> standing in the text \<open>pre @ m @ suf\<close> as a whole
  token, and the leftmost candidate of a text.\<close>

definition candidate_at :: "string \<Rightarrow> string \<Rightarrow> string \<Rightarrow> bool" where
  "candidate_at pre m suf = (cc_shape m \<and> no_word_before pre \<and> no_word_after suf)"

definition first_candidate :: "string \<Rightarrow> string \<Rightarrow> bool" where
  "first_candidate txt m =
     (\<exists>pre suf. txt = pre @ m @ suf \<and> candidate_at pre m suf \<and>
        (\<forall>pre' m' suf'. txt = pre' @ m' @ suf' \<and> candidate_at pre' m' suf'
           \<longrightarrow> length pre \<le> length pre'))"

text \<open>The candidate in the words of the specification: after the separators are
  stripped, 13 to 19 digits that start with 4, 51 to 55, 6, 1 or 3.\<close>

definition spec_prefix :: "string \<Rightarrow> bool" where
  "spec_prefix s =
     (hd s \<in> set ''4613'' \<or> (hd s = CHR ''5'' \<and> in_range CHR ''1'' CHR ''5'' (s ! 1)))"

definition spec_candidate :: "string \<Rightarrow> bool" where
  "spec_candidate d =
     (let s = sanitize d
      in list_all is_digit s \<and> 13 \<le> length s \<and> length s \<le> 19 \<and> spec_prefix s)"

section \<open>What one run computes, file by file\<close>

text \<open>Lines 75 to 78: the status and content the loop works with, the future's result or
  \<open>("NA", "")\<close> when \<^verbatim>\<open>result()\<close> raises.\<close>

definition outcome :: "world \<Rightarrow> string \<Rightarrow> string \<times> string option" where
  "outcome w p = (case future_result w p of Inl e \<Rightarrow> (''NA'', Some []) | Inr r \<Rightarrow> r)"

text \<open>The \<open>file_info\<close> a file ends with once its future is processed, the test of
  line 95 and the report entry of lines 96 to 99.\<close>

definition findings :: "world \<Rightarrow> string \<Rightarrow> file_info" where
  "findings w p =
     (let st = fst (outcome w p);
          txt = (case snd (outcome w p) of None \<Rightarrow> [] | Some t \<Rightarrow> t)
      in \<lparr>scanned = st,
          credit_card_found = (st = ''Y'' \<and> credit_card_detect txt = Inr True),
          social_security_found = (st = ''Y'' \<and> social_security_detect txt)\<rparr>)"

definition flagged :: "file_info \<Rightarrow> bool" where
  "flagged info = (social_security_found info \<or> credit_card_found info)"

definition entry_of :: "file_info \<Rightarrow> report_entry" where
  "entry_of info =
     \<lparr>report_credit_card_found = yes_no (credit_card_found info),
      report_social_security_found = yes_no (social_security_found info)\<rparr>"

text \<open>Both dictionaries after the futures of the paths in \<open>D\<close> are processed.\<close>

definition state_after :: "world \<Rightarrow> string set \<Rightarrow> scan_state" where
  "state_after w D =
     (\<lambda>q. if q \<in> set (walk w) then Some (if q \<in> D then findings w q else initial_info) else None,
      \<lambda>q. if q \<in> D \<and> flagged (findings w q) then Some (entry_of (findings w q)) else None)"

subsection \<open>Example runs\<close>

text \<open>The three files of the end-to-end scenario of the specification, in two
  enumeration and completion orders; a run with a file on which the service raises and
  one whose future raises; a run in which \<open>b.txt\<close> is still pending when the 180
  seconds end.\<close>

definition scenario_tika :: "string \<Rightarrow> tika_response" where
  "scenario_tika p =
     (if p = ''a.txt'' then Response (Some 200) (Some ''SSN: 123-45-6789'')
      else if p = ''b.txt'' then Response (Some 200) (Some ''4111-1111-1111-1112'')
      else if p = ''c.txt'' then Response (Some 200) (Some ''plain prose'')
      else Raises)"

definition scenario :: world where
  "scenario =
     \<lparr>walk = [''a.txt'', ''b.txt'', ''c.txt''], from_file = scenario_tika,
      worker_fails = (\<lambda>p. False), completed = [''c.txt'', ''a.txt'', ''b.txt'']\<rparr>"

definition scenario_again :: world where
  "scenario_again =
     \<lparr>walk = [''c.txt'', ''b.txt'', ''a.txt''], from_file = scenario_tika,
      worker_fails = (\<lambda>p. False), completed = [''b.txt'', ''c.txt'', ''a.txt'']\<rparr>"


definition scenario_timeout :: world where
  "scenario_timeout =
     \<lparr>walk = [''a.txt'', ''b.txt''], from_file = scenario_tika,
      worker_fails = (\<lambda>p. False), completed = [''a.txt'']\<rparr>"

section \<open>Properties of the Luhn checksum\<close>

lemma int_of_char_range:
  "int_of_char c = Inr d \<Longrightarrow> 0 \<le> d \<and> d \<le> 9"
  by (auto simp: int_of_char_def is_digit_def split: if_splits)

lemma digits_of_range:
  "digits_of s = Inr ds \<Longrightarrow> list_all (\<lambda>d. 0 \<le> d \<and> d \<le> 9) ds"
proof (induction s arbitrary: ds)
  case Nil
  then show ?case by simp
next
  case (Cons c cs)
  then show ?case
    by (auto split: sum.splits dest: int_of_char_range)
qed

lemma digit_cases:
  assumes "0 \<le> d" "d \<le> 9"
  shows "d = 0 \<or> d = 1 \<or> d = 2 \<or> d = 3 \<or> d = 4 \<or> d = 5 \<or> d = 6 \<or> d = 7 \<or> d = 8 \<or> d = (9::int)"
  using assms by arith

lemma doubled_digit_sum:
  assumes "0 \<le> d" "d \<le> 9"
  shows "\<exists>xs. digits_of (str_int (d * 2)) = Inr xs \<and> sum_list xs = doubled_value d"
proof -
  have "list_all (\<lambda>d. map_sum id sum_list (digits_of (str_int (d * 2))) = Inr (doubled_value d))
          [0,1,2,3,4,5,6,7,8,9::int]"
    by code_simp
  with digit_cases [OF assms]
  have "map_sum id sum_list (digits_of (str_int (d * 2))) = Inr (doubled_value d)"
    by auto
  then show ?thesis
    by (cases "digits_of (str_int (d * 2))") auto
qed

lemma add_doubled_eq:
  "list_all (\<lambda>d. 0 \<le> d \<and> d \<le> 9) ds \<Longrightarrow>
   add_doubled ds acc = Inr (acc + sum_list (map doubled_value ds))"
proof (induction ds arbitrary: acc)
  case Nil
  then show ?case by simp
next
  case (Cons d ds)
  then have "0 \<le> d" "d \<le> 9" by simp_all
  from doubled_digit_sum [OF this] obtain xs
    where "digits_of (str_int (d * 2)) = Inr xs" "sum_list xs = doubled_value d" by blast
  with Cons show ?case by simp
qed

lemma every_other_Cons: "every_other (x # xs) = x # every_other (drop 1 xs)"
  by (cases xs) simp_all

lemma luhn_total_split:
  "luhn_total xs = sum_list (every_other xs) + sum_list (map doubled_value (every_other (drop 1 xs)))"
  by (induction xs rule: luhn_total.induct) (simp_all add: every_other_Cons)

lemma list_all_every_other: "list_all P xs \<Longrightarrow> list_all P (every_other xs)"
  by (induction xs rule: every_other.induct) simp_all

lemma luhn_checksum_digits:
  assumes "digits_of s = Inr ds"
  shows "luhn_checksum s = Inr (luhn_spec ds)"
proof -
  have "list_all (\<lambda>d. 0 \<le> d \<and> d \<le> 9) (drop 1 (rev ds))"
    using digits_of_range [OF assms] by (auto simp: list_all_iff dest: in_set_dropD)
  then have "list_all (\<lambda>d. 0 \<le> d \<and> d \<le> 9) (every_other (drop 1 (rev ds)))"
    by (rule list_all_every_other)
  then show ?thesis
    using assms by (simp add: luhn_checksum_def luhn_spec_def add_doubled_eq luhn_total_split)
qed

lemma luhn_checksum_error:
  "digits_of s = Inl e \<Longrightarrow> luhn_checksum s = Inl e"
  by (simp add: luhn_checksum_def)

text \<open>
  C2: \<open>luhn_checksum\<close> computes the Luhn checksum as the specification words it: on
  a digit string it answers \<open>luhn_spec\<close> of the digits (every second digit from the
  right doubled, a doubled value above 9 replaced by its digit sum, the other digits
  added as they are, the total tested modulo 10), and on any other string it raises the
  \<open>ValueError\<close> of \<^verbatim>\<open>int\<close>. The number 4111111111111111 is valid and
  4111111111111112 is not.
\<close>

theorem luhn_checksum_is_luhn:
  "luhn_checksum s = (case digits_of s of Inl e \<Rightarrow> Inl e | Inr ds \<Rightarrow> Inr (luhn_spec ds))
   \<and> luhn_checksum ''4111111111111111'' = Inr True
   \<and> luhn_checksum ''4111111111111112'' = Inr False"
proof -
  have a: "luhn_checksum s = (case digits_of s of Inl e \<Rightarrow> Inl e | Inr ds \<Rightarrow> Inr (luhn_spec ds))"
    by (cases "digits_of s") (simp_all add: luhn_checksum_error luhn_checksum_digits)
  have b: "luhn_checksum ''4111111111111111'' = Inr True" by code_simp
  have c: "luhn_checksum ''4111111111111112'' = Inr False" by code_simp
  from a b c show ?thesis by blast
qed

lemma digits_of_zeros: "digits_of (replicate n (CHR ''0'')) = Inr (replicate n 0)"
  by (induction n) (simp_all add: int_of_char_def is_digit_def code_def)

lemma luhn_total_zeros: "list_all (\<lambda>d. d = 0) xs \<Longrightarrow> luhn_total xs = 0"
  by (induction xs rule: luhn_total.induct) (simp_all add: doubled_value_def)

lemma digits_of_total: "list_all is_digit s \<Longrightarrow> \<exists>ds. digits_of s = Inr ds"
  by (induction s) (auto simp: int_of_char_def)

lemma luhn_checksum_total:
  assumes "list_all is_digit s"
  shows "\<exists>b. luhn_checksum s = Inr b"
proof -
  from digits_of_total [OF assms] obtain ds where "digits_of s = Inr ds" ..
  from luhn_checksum_digits [OF this] show ?thesis ..
qed

text \<open>
  C10: \<open>luhn_checksum\<close> checks neither length nor prefix: it returns a truth value on
  every string of digits, and \<open>True\<close> on the empty string and on every string of zeros,
  whose checksum is 0.
\<close>

theorem luhn_checksum_zeros:
  "luhn_checksum [] = Inr True
   \<and> luhn_checksum (replicate n (CHR ''0'')) = Inr True
   \<and> (list_all is_digit s \<longrightarrow> (\<exists>b. luhn_checksum s = Inr b))"
proof -
  have "luhn_total (rev (replicate n 0)) = 0"
    by (rule luhn_total_zeros) (simp add: list_all_iff)
  then have "luhn_checksum (replicate n (CHR ''0'')) = Inr True"
    by (simp add: luhn_checksum_digits [OF digits_of_zeros] luhn_spec_def)
  moreover have "luhn_checksum [] = Inr True"
    by (simp add: luhn_checksum_def)
  ultimately show ?thesis using luhn_checksum_total by blast
qed

theorem luhn_checksum_zeros_witness:
  "luhn_checksum [] = Inr True
   \<and> luhn_checksum (replicate 16 (CHR ''0'')) = Inr True
   \<and> list_all is_digit ''7'' \<and> luhn_checksum ''7'' = Inr False"
proof -
  have d: "list_all is_digit ''7''" by (simp add: is_digit_def code_def)
  have f: "luhn_checksum ''7'' = Inr False" by code_simp
  from luhn_checksum_zeros [of 16 "''7''"] d f show ?thesis by blast
qed

section \<open>The matcher against the declarative account\<close>

lemma run_lang:
  "wb_free r \<Longrightarrow>
   (q \<in> set (run r p)) = (\<exists>m. snd p = m @ snd q \<and> fst q = rev m @ fst p \<and> m \<in> lang r)"
proof (induction r arbitrary: p q)
  case Eps
  show ?case by (cases p; cases q) auto
next
  case (Atom P)
  show ?case by (cases p; cases q) (auto split: list.splits)
next
  case WordB
  then show ?case by simp
next
  case (Seq r1 r2)
  then have w1: "wb_free r1" and w2: "wb_free r2" by simp_all
  show ?case
  proof
    assume "q \<in> set (run (Seq r1 r2) p)"
    then obtain q1 where q1: "q1 \<in> set (run r1 p)" and q: "q \<in> set (run r2 q1)" by auto
    from q1 Seq.IH(1) [OF w1] obtain u where
      u: "snd p = u @ snd q1" "fst q1 = rev u @ fst p" "u \<in> lang r1" by blast
    from q Seq.IH(2) [OF w2] obtain v where
      v: "snd q1 = v @ snd q" "fst q = rev v @ fst q1" "v \<in> lang r2" by blast
    from u v have "snd p = (u @ v) @ snd q" "fst q = rev (u @ v) @ fst p" "u @ v \<in> lang (Seq r1 r2)"
      by (auto simp: conc_def)
    then show "\<exists>m. snd p = m @ snd q \<and> fst q = rev m @ fst p \<and> m \<in> lang (Seq r1 r2)" by blast
  next
    assume "\<exists>m. snd p = m @ snd q \<and> fst q = rev m @ fst p \<and> m \<in> lang (Seq r1 r2)"
    then obtain u v where m: "snd p = (u @ v) @ snd q" "fst q = rev (u @ v) @ fst p"
      "u \<in> lang r1" "v \<in> lang r2" by (auto simp: conc_def)
    let ?q1 = "(rev u @ fst p, v @ snd q)"
    have "?q1 \<in> set (run r1 p)"
      using m Seq.IH(1) [OF w1, of ?q1 p] by simp
    moreover have "q \<in> set (run r2 ?q1)"
      using m Seq.IH(2) [OF w2, of q ?q1] by simp
    ultimately show "q \<in> set (run (Seq r1 r2) p)" by auto
  qed
next
  case (Alt r1 r2)
  then show ?case by auto
next
  case (Opt r)
  then show ?case by (cases p; cases q) auto
qed

lemma run_bounded:
  "wb_free r \<Longrightarrow>
   (q \<in> set (run (Seq WordB (Seq r WordB)) p)) =
   (\<exists>m. snd p = m @ snd q \<and> fst q = rev m @ fst p \<and> m \<in> lang r \<and> at_boundary p \<and> at_boundary q)"
  by (auto simp: run_lang)

lemma mem_conc: "w \<in> conc A B \<longleftrightarrow> (\<exists>u v. w = u @ v \<and> u \<in> A \<and> v \<in> B)"
  by (auto simp: conc_def)

lemma mem_conc_Atom:
  "w \<in> conc {[c] | c. P c} B \<longleftrightarrow> (\<exists>c v. w = c # v \<and> P c \<and> v \<in> B)"
proof
  assume "w \<in> conc {[c] | c. P c} B"
  then obtain c v where "w = [c] @ v" "P c" "v \<in> B" by (auto simp: conc_def)
  then show "\<exists>c v. w = c # v \<and> P c \<and> v \<in> B" by simp
next
  assume "\<exists>c v. w = c # v \<and> P c \<and> v \<in> B"
  then obtain c v where "w = [c] @ v" "P c" "v \<in> B" by auto
  then show "w \<in> conc {[c] | c. P c} B" unfolding conc_def by blast
qed

lemma lang_exactly:
  "w \<in> lang (seqs (replicate n (Atom P))) \<longleftrightarrow> length w = n \<and> list_all P w"
proof (induction n arbitrary: w)
  case 0
  show ?case by auto
next
  case (Suc n)
  show ?case by (cases w) (auto simp: mem_conc_Atom Suc)
qed

lemma lang_upto:
  "w \<in> lang (opts n (Atom P)) \<longleftrightarrow> length w \<le> n \<and> list_all P w"
proof (induction n arbitrary: w)
  case 0
  show ?case by auto
next
  case (Suc n)
  show ?case by (cases w) (auto simp: mem_conc_Atom Suc)
qed

lemma lang_Rep:
  assumes "lo \<le> hi"
  shows "w \<in> lang (Rep lo hi (Atom P)) \<longleftrightarrow> lo \<le> length w \<and> length w \<le> hi \<and> list_all P w"
proof
  assume "w \<in> lang (Rep lo hi (Atom P))"
  then show "lo \<le> length w \<and> length w \<le> hi \<and> list_all P w"
    using assms by (auto simp: Rep_def mem_conc lang_exactly lang_upto)
next
  assume a: "lo \<le> length w \<and> length w \<le> hi \<and> list_all P w"
  have "w = take lo w @ drop lo w" by simp
  moreover have "take lo w \<in> lang (seqs (replicate lo (Atom P)))"
    using a by (auto simp: lang_exactly list_all_iff dest: in_set_takeD)
  moreover have "drop lo w \<in> lang (opts (hi - lo) (Atom P))"
    using a by (auto simp: lang_upto list_all_iff dest: in_set_dropD)
  ultimately show "w \<in> lang (Rep lo hi (Atom P))"
    unfolding Rep_def lang.simps mem_conc by blast
qed

lemma lang_digits:
  "lo \<le> hi \<Longrightarrow> w \<in> lang (Rep lo hi Digit) \<longleftrightarrow> digit_group lo hi w"
  by (simp add: Digit_def lang_Rep digit_group_def)



lemma lang_opt_sep: "s \<in> lang (Opt (OneOf ''- '')) \<longleftrightarrow> optional_sep s"
  by (auto simp: OneOf_def optional_sep_def)


lemma wb_free_seqs_replicate: "wb_free r \<Longrightarrow> wb_free (seqs (replicate n r))"
  by (induction n) simp_all

lemma wb_free_opts: "wb_free r \<Longrightarrow> wb_free (opts n r)"
  by (induction n) simp_all

lemma wb_free_Rep: "wb_free r \<Longrightarrow> wb_free (Rep lo hi r)"
  by (simp add: Rep_def wb_free_seqs_replicate wb_free_opts)


lemma wb_free_cc_body: "wb_free cc_body"
  by (simp add: cc_body_def cc_prefix_def wb_free_Rep Range_def OneOf_def Chr_def Digit_def)

lemma concI: "u \<in> A \<Longrightarrow> v \<in> B \<Longrightarrow> u @ v \<in> conc A B"
  unfolding conc_def by blast

lemma concE:
  assumes "w \<in> conc A B"
  obtains u v where "w = u @ v" "u \<in> A" "v \<in> B"
  using assms unfolding conc_def by blast


lemma digit_chars:
  "is_digit CHR ''4''" "is_digit CHR ''5''" "is_digit CHR ''6''" "is_digit CHR ''1''"
  "is_digit CHR ''3''"
  by (simp_all add: is_digit_def code_def)

lemma range_0_5_digit: "in_range CHR ''0'' CHR ''5'' c \<Longrightarrow> is_digit c"
  by (simp add: in_range_def is_digit_def code_def)

lemma lang_lead:
  "p \<in> lang (Seq (Chr c) (Rep 3 3 Digit)) \<longleftrightarrow> (\<exists>v. p = c # v \<and> digit_group 3 3 v)"
  unfolding Chr_def lang.simps mem_conc_Atom by (simp add: lang_digits)

lemma lang_lead5:
  "p \<in> lang (Seq (Chr CHR ''5'') (Seq (Range CHR ''0'' CHR ''5'') (Rep 2 2 Digit))) \<longleftrightarrow>
   (\<exists>d v. p = CHR ''5'' # d # v \<and> in_range CHR ''0'' CHR ''5'' d \<and> digit_group 2 2 v)"
  unfolding Chr_def Range_def lang.simps mem_conc_Atom by (simp add: lang_digits) blast

lemma weak_prefix_lead:
  "is_digit c \<Longrightarrow> digit_group 4 4 (c # v) \<longleftrightarrow> digit_group 3 3 v"
  by (auto simp: digit_group_def)

lemma lang_cc_prefix: "p \<in> lang cc_prefix \<longleftrightarrow> weak_prefix p"
proof
  assume "p \<in> lang cc_prefix"
  then consider v where "p = CHR ''4'' # v" "digit_group 3 3 v"
    | d v where "p = CHR ''5'' # d # v" "in_range CHR ''0'' CHR ''5'' d" "digit_group 2 2 v"
    | v where "p = CHR ''6'' # v" "digit_group 3 3 v"
    | v where "p = CHR ''1'' # v" "digit_group 3 3 v"
    | v where "p = CHR ''3'' # v" "digit_group 3 3 v"
    unfolding cc_prefix_def lang.simps(5) Un_iff lang_lead lang_lead5 by blast
  then show "weak_prefix p"
  proof cases
    case 1 then show ?thesis by (simp add: weak_prefix_def digit_group_def digit_chars)
  next
    case 2 then show ?thesis
      by (simp add: weak_prefix_def digit_group_def digit_chars range_0_5_digit)
  next
    case 3 then show ?thesis by (simp add: weak_prefix_def digit_group_def digit_chars)
  next
    case 4 then show ?thesis by (simp add: weak_prefix_def digit_group_def digit_chars)
  next
    case 5 then show ?thesis by (simp add: weak_prefix_def digit_group_def digit_chars)
  qed
next
  assume w: "weak_prefix p"
  then have len: "length p = 4" and dig: "list_all is_digit p"
    by (simp_all add: weak_prefix_def digit_group_def)
  from len obtain c d v where p: "p = c # d # v" "length v = 2"
    by (cases p; cases "tl p") auto
  from dig p have dv: "is_digit d" "digit_group 2 2 v" "digit_group 3 3 (d # v)"
    by (simp_all add: digit_group_def)
  from w p have "c = CHR ''4'' \<or> c = CHR ''6'' \<or> c = CHR ''1'' \<or> c = CHR ''3''
      \<or> (c = CHR ''5'' \<and> in_range CHR ''0'' CHR ''5'' d)"
    by (auto simp: weak_prefix_def)
  then show "p \<in> lang cc_prefix"
    unfolding cc_prefix_def lang.simps(5) Un_iff lang_lead lang_lead5
    using p(1) dv by blast
qed

lemma lang_cc_body: "m \<in> lang cc_body \<longleftrightarrow> cc_shape m"
proof
  let ?S = "lang (Opt (OneOf ''- ''))"
  let ?G = "lang (Rep 3 4 Digit)"
  let ?H = "lang (Rep 3 5 Digit)"
  assume "m \<in> lang cc_body"
  then have "m \<in> conc (lang cc_prefix) (conc ?S (conc ?G (conc ?S (conc ?G (conc ?S (conc ?H {[]}))))))"
    by (simp add: cc_body_def)
  then obtain p r1 where p: "m = p @ r1" "p \<in> lang cc_prefix"
    and r1: "r1 \<in> conc ?S (conc ?G (conc ?S (conc ?G (conc ?S (conc ?H {[]})))))"
    by (rule concE)
  from r1 obtain s1 r2 where s1: "r1 = s1 @ r2" "s1 \<in> ?S"
    and r2: "r2 \<in> conc ?G (conc ?S (conc ?G (conc ?S (conc ?H {[]}))))"
    by (rule concE)
  from r2 obtain g2 r3 where g2: "r2 = g2 @ r3" "g2 \<in> ?G"
    and r3: "r3 \<in> conc ?S (conc ?G (conc ?S (conc ?H {[]})))"
    by (rule concE)
  from r3 obtain s2 r4 where s2: "r3 = s2 @ r4" "s2 \<in> ?S"
    and r4: "r4 \<in> conc ?G (conc ?S (conc ?H {[]}))"
    by (rule concE)
  from r4 obtain g3 r5 where g3: "r4 = g3 @ r5" "g3 \<in> ?G"
    and r5: "r5 \<in> conc ?S (conc ?H {[]})"
    by (rule concE)
  from r5 obtain s3 r6 where s3: "r5 = s3 @ r6" "s3 \<in> ?S"
    and r6: "r6 \<in> conc ?H {[]}"
    by (rule concE)
  from r6 have g4: "r6 \<in> ?H"
    by (auto elim: concE)
  have "m = p @ s1 @ g2 @ s2 @ g3 @ s3 @ r6"
    by (simp add: p(1) s1(1) g2(1) s2(1) g3(1) s3(1))
  moreover have "weak_prefix p" "digit_group 3 4 g2" "digit_group 3 4 g3" "digit_group 3 5 r6"
    using p(2) g2(2) g3(2) g4 by (simp_all add: lang_cc_prefix lang_digits)
  moreover have "optional_sep s1" "optional_sep s2" "optional_sep s3"
    using s1(2) s2(2) s3(2) by (simp_all only: lang_opt_sep)
  ultimately show "cc_shape m"
    unfolding cc_shape_def by blast
next
  assume "cc_shape m"
  then obtain p s1 g2 s2 g3 s3 g4 where m: "m = p @ s1 @ g2 @ s2 @ g3 @ s3 @ g4"
    and g: "weak_prefix p" "optional_sep s1" "digit_group 3 4 g2" "optional_sep s2"
      "digit_group 3 4 g3" "optional_sep s3" "digit_group 3 5 g4"
    unfolding cc_shape_def by blast
  have "p @ s1 @ g2 @ s2 @ g3 @ s3 @ g4 @ [] \<in> lang cc_body"
    unfolding cc_body_def seqs.simps lang.simps(4)
    by (intro concI) (simp_all add: g lang_cc_prefix lang_opt_sep lang_digits del: lang.simps(6))
  then show "m \<in> lang cc_body" by (simp add: m)
qed


lemma search_from_first:
  assumes "a = u @ v" "run r (rev u @ b, v) = q # qs"
    and "\<And>u' v'. a = u' @ v' \<Longrightarrow> length u' < length u \<Longrightarrow> run r (rev u' @ b, v') = []"
  shows "search_from r b a = Some (take (length v - length (snd q)) v)"
  using assms
proof (induction u arbitrary: a b)
  case Nil
  then have "run r (b, v) = q # qs" "a = v" by simp_all
  then show ?case by (cases v) simp_all
next
  case (Cons c u)
  from Cons.prems(1) have a: "a = c # (u @ v)" by simp
  have "run r (rev [] @ b, a) = []"
    by (rule Cons.prems(3)) simp_all
  then have here: "run r (b, c # (u @ v)) = []" by (simp add: a)
  have "search_from r (c # b) (u @ v) = Some (take (length v - length (snd q)) v)"
  proof (rule Cons.IH)
    show "u @ v = u @ v" ..
    show "run r (rev u @ c # b, v) = q # qs" using Cons.prems(2) by simp
    fix u' v' assume "u @ v = u' @ v'" "length u' < length u"
    then have "a = (c # u') @ v'" "length (c # u') < length (c # u)" by (simp_all add: a)
    from Cons.prems(3) [OF this] show "run r (rev u' @ c # b, v') = []" by simp
  qed
  with here show ?case by (simp add: a)
qed

lemma search_from_Some:
  assumes "search_from r b a = Some m"
  shows "\<exists>u v q qs. a = u @ v \<and> run r (rev u @ b, v) = q # qs
           \<and> m = take (length v - length (snd q)) v
           \<and> (\<forall>u' v'. a = u' @ v' \<and> length u' < length u \<longrightarrow> run r (rev u' @ b, v') = [])"
  using assms
proof (induction a arbitrary: b)
  case Nil
  then obtain q qs where "run r (b, []) = q # qs" "m = []"
    by (auto split: list.splits)
  then show ?case by auto
next
  case (Cons c a)
  show ?case
  proof (cases "run r (b, c # a)")
    case Nil
    with Cons.prems have "search_from r (c # b) a = Some m" by simp
    from Cons.IH [OF this] obtain u v q qs where
      h: "a = u @ v" "run r (rev u @ c # b, v) = q # qs" "m = take (length v - length (snd q)) v"
         "\<forall>u' v'. a = u' @ v' \<and> length u' < length u \<longrightarrow> run r (rev u' @ c # b, v') = []"
      by blast
    have "\<forall>u' v'. c # a = u' @ v' \<and> length u' < length (c # u) \<longrightarrow> run r (rev u' @ b, v') = []"
    proof (intro allI impI)
      fix u' v' assume e: "c # a = u' @ v' \<and> length u' < length (c # u)"
      show "run r (rev u' @ b, v') = []"
      proof (cases u')
        case Nil
        with e \<open>run r (b, c # a) = []\<close> show ?thesis by simp
      next
        case (Cons x w)
        with e have "x = c" "a = w @ v'" "length w < length u" by simp_all
        with h(4) have "run r (rev w @ c # b, v') = []" by blast
        with Cons \<open>x = c\<close> show ?thesis by simp
      qed
    qed
    moreover have "c # a = (c # u) @ v" "run r (rev (c # u) @ b, v) = q # qs"
      using h(1,2) by simp_all
    ultimately show ?thesis using h(3) by blast
  next
    case (Cons q qs)
    with Cons.prems have "m = take (length (c # a) - length (snd q)) (c # a)" by simp
    moreover have "c # a = [] @ (c # a)" "run r (rev [] @ b, c # a) = q # qs"
      using Cons by simp_all
    ultimately show ?thesis by (metis length_greater_0_conv list.size(3) not_less0)
  qed
qed

lemma digit_is_word: "is_digit c \<Longrightarrow> is_word c"
  by (simp add: is_digit_def is_word_def)

lemma word_at_rev: "word_at (rev pre) \<longleftrightarrow> pre \<noteq> [] \<and> is_word (last pre)"
  by (cases pre rule: rev_cases) simp_all

lemma word_at_hd: "word_at suf \<longleftrightarrow> suf \<noteq> [] \<and> is_word (hd suf)"
  by (cases suf) simp_all

lemma boundary_token:
  assumes "m \<noteq> []" "is_word (hd m)" "is_word (last m)"
  shows "at_boundary (rev pre, m @ suf) \<and> at_boundary (rev m @ rev pre, suf) \<longleftrightarrow>
         no_word_before pre \<and> no_word_after suf"
proof -
  have "word_at (m @ suf)" using assms by (cases m) simp_all
  moreover have "word_at (rev m @ rev pre)" using assms by (cases m rule: rev_cases) simp_all
  ultimately show ?thesis
    unfolding at_boundary_def fst_conv snd_conv no_word_before_def no_word_after_def
    using word_at_rev [of pre] word_at_hd [of suf] by blast
qed

lemma run_token:
  assumes "token_lang r"
  shows "q \<in> set (run (Seq WordB (Seq r WordB)) (rev pre, v)) \<longleftrightarrow>
         (\<exists>m. v = m @ snd q \<and> fst q = rev m @ rev pre \<and> m \<in> lang r
              \<and> no_word_before pre \<and> no_word_after (snd q))"
proof -
  from assms have w: "wb_free r"
    and t: "\<And>m. m \<in> lang r \<Longrightarrow> m \<noteq> [] \<and> is_word (hd m) \<and> is_word (last m)"
    by (simp_all add: token_lang_def)
  have "q \<in> set (run (Seq WordB (Seq r WordB)) (rev pre, v)) \<longleftrightarrow>
        (\<exists>m. v = m @ snd q \<and> fst q = rev m @ rev pre \<and> m \<in> lang r
             \<and> at_boundary (rev pre, v) \<and> at_boundary q)"
    using run_bounded [OF w, of q "(rev pre, v)"] by simp
  also have "\<dots> \<longleftrightarrow> (\<exists>m. v = m @ snd q \<and> fst q = rev m @ rev pre \<and> m \<in> lang r
             \<and> no_word_before pre \<and> no_word_after (snd q))"
  proof (intro iff_exI)
    fix m
    show "(v = m @ snd q \<and> fst q = rev m @ rev pre \<and> m \<in> lang r
             \<and> at_boundary (rev pre, v) \<and> at_boundary q) \<longleftrightarrow>
          (v = m @ snd q \<and> fst q = rev m @ rev pre \<and> m \<in> lang r
             \<and> no_word_before pre \<and> no_word_after (snd q))"
    proof (cases "v = m @ snd q \<and> fst q = rev m @ rev pre \<and> m \<in> lang r")
      case True
      then have q: "q = (rev m @ rev pre, snd q)" by (cases q) simp
      from True t have "m \<noteq> []" "is_word (hd m)" "is_word (last m)" by (blast+)
      from boundary_token [OF this, of pre "snd q"] True q show ?thesis by metis
    next
      case False
      then show ?thesis by blast
    qed
  qed
  finally show ?thesis .
qed


lemma digit_group_ends:
  "digit_group lo hi g \<Longrightarrow> 0 < lo \<Longrightarrow> g \<noteq> [] \<and> is_digit (hd g) \<and> is_digit (last g)"
  by (cases g) (auto simp: digit_group_def list_all_iff)





text \<open>The two separators come from the same class and need not be the same character;
  a group that touches a letter, an underscore or another digit is no whole token.\<close>

lemma ssn_examples:
  "social_security_detect ''123-45.6789''"
  "\<not> social_security_detect ''1123-45-6789''"
  "\<not> social_security_detect ''123-45-6789_''"
  by code_simp+

lemma ndig_append: "ndig (u @ v) = ndig u + ndig v"
  by (simp add: ndig_def)

lemma ndig_group: "digit_group lo hi g \<Longrightarrow> ndig g = length g"
  by (simp add: ndig_def digit_group_def list_all_iff)

lemma ndig_sep: "optional_sep s \<Longrightarrow> ndig s = 0"
  by (auto simp: optional_sep_def ndig_def is_digit_def code_def)

lemma weak_prefix_group: "weak_prefix p \<Longrightarrow> digit_group 4 4 p"
  by (simp add: weak_prefix_def)

lemma cc_shape_ndig:
  assumes "cc_shape m"
  shows "13 \<le> ndig m \<and> ndig m \<le> 17"
proof -
  from assms obtain p s1 g2 s2 g3 s3 g4 where m: "m = p @ s1 @ g2 @ s2 @ g3 @ s3 @ g4"
    and g: "weak_prefix p" "optional_sep s1" "digit_group 3 4 g2" "optional_sep s2"
      "digit_group 3 4 g3" "optional_sep s3" "digit_group 3 5 g4"
    unfolding cc_shape_def by blast
  have "ndig m = length p + length g2 + length g3 + length g4"
    by (simp add: m ndig_append ndig_sep g ndig_group [OF weak_prefix_group [OF g(1)]]
        ndig_group [OF g(3)] ndig_group [OF g(5)] ndig_group [OF g(7)])
  moreover have "length p = 4" "3 \<le> length g2" "length g2 \<le> 4" "3 \<le> length g3"
    "length g3 \<le> 4" "3 \<le> length g4" "length g4 \<le> 5"
    using g weak_prefix_group [OF g(1)] by (simp_all add: digit_group_def)
  ultimately show ?thesis by arith
qed

lemma cc_shape_cut:
  assumes "cc_shape m" "m = u @ c # z" "\<not> is_digit c"
  shows "ndig u \<le> 12"
proof -
  from assms(1) obtain p s1 g2 s2 g3 s3 g4 where m: "m = p @ s1 @ g2 @ s2 @ g3 @ s3 @ g4"
    and g: "weak_prefix p" "optional_sep s1" "digit_group 3 4 g2" "optional_sep s2"
      "digit_group 3 4 g3" "optional_sep s3" "digit_group 3 5 g4"
    unfolding cc_shape_def by blast
  define X where "X = p @ s1 @ g2 @ s2 @ g3 @ s3"
  have "ndig X = length p + length g2 + length g3"
    by (simp add: X_def ndig_append ndig_sep g ndig_group [OF weak_prefix_group [OF g(1)]]
        ndig_group [OF g(3)] ndig_group [OF g(5)])
  moreover have "length p = 4" "length g2 \<le> 4" "length g3 \<le> 4"
    using g weak_prefix_group [OF g(1)] by (simp_all add: digit_group_def)
  ultimately have X: "ndig X \<le> 12" by arith
  have "u @ c # z = X @ g4" using assms(2) m by (simp add: X_def)
  then obtain us where "(u = X @ us \<and> us @ c # z = g4) \<or> (u @ us = X \<and> c # z = us @ g4)"
    unfolding append_eq_append_conv2 by blast
  then show ?thesis
  proof
    assume "u = X @ us \<and> us @ c # z = g4"
    then have "c \<in> set g4" by auto
    with g(7) have "is_digit c" by (simp add: digit_group_def list_all_iff)
    with assms(3) show ?thesis by simp
  next
    assume "u @ us = X \<and> c # z = us @ g4"
    then have "ndig X = ndig u + ndig us" by (auto simp: ndig_append [symmetric])
    with X show ?thesis by simp
  qed
qed

lemma cc_longer:
  assumes "cc_shape m" "cc_shape m'" "m = m' @ us" "us @ x = y" "no_word_after y"
  shows "us = []"
proof (rule ccontr)
  assume "us \<noteq> []"
  then obtain c z where us: "us = c # z" by (cases us) auto
  with assms(4,5) have "\<not> is_word c" by (auto simp: no_word_after_def)
  then have "\<not> is_digit c" using digit_is_word by blast
  from cc_shape_cut [OF assms(1) _ this, of m' z] assms(3) us have "ndig m' \<le> 12" by simp
  with cc_shape_ndig [OF assms(2)] show False by simp
qed

lemma cc_unique:
  assumes "cc_shape m" "cc_shape m'" "m @ x = m' @ y" "no_word_after x" "no_word_after y"
  shows "m = m'"
proof -
  from assms(3) obtain us where "(m = m' @ us \<and> us @ x = y) \<or> (m @ us = m' \<and> x = us @ y)"
    unfolding append_eq_append_conv2 by blast
  then show ?thesis
  proof
    assume h: "m = m' @ us \<and> us @ x = y"
    with cc_longer [OF assms(1,2) _ _ assms(5), of us x] show ?thesis by simp
  next
    assume h: "m @ us = m' \<and> x = us @ y"
    with cc_longer [OF assms(2,1) _ _ assms(4), of us y] show ?thesis by simp
  qed
qed

lemma cc_shape_ends:
  assumes "cc_shape m"
  shows "m \<noteq> [] \<and> is_word (hd m) \<and> is_word (last m)"
proof -
  from assms obtain p s1 g2 s2 g3 s3 g4 where m: "m = p @ s1 @ g2 @ s2 @ g3 @ s3 @ g4"
    and g: "weak_prefix p" "digit_group 3 5 g4"
    unfolding cc_shape_def by blast
  from digit_group_ends [OF weak_prefix_group [OF g(1)]] digit_group_ends [OF g(2)]
  have "p \<noteq> []" "is_digit (hd p)" "g4 \<noteq> []" "is_digit (last g4)" by simp_all
  then show ?thesis by (simp add: m digit_is_word)
qed

lemma token_lang_cc: "token_lang cc_body"
  by (simp add: token_lang_def wb_free_cc_body lang_cc_body cc_shape_ends)

lemma run_cc:
  "q \<in> set (run weak_credit_card_regex (rev pre, v)) \<longleftrightarrow>
   (\<exists>m. v = m @ snd q \<and> fst q = rev m @ rev pre \<and> candidate_at pre m (snd q))"
  unfolding weak_credit_card_regex_def run_token [OF token_lang_cc] lang_cc_body candidate_at_def
  by blast

lemma search_cc_first:
  assumes "search weak_credit_card_regex txt = Some m"
  shows "first_candidate txt m"
proof -
  let ?R = weak_credit_card_regex
  from assms have "search_from ?R [] txt = Some m" by (simp add: search_def)
  from search_from_Some [OF this] obtain u v q qs where
    h: "txt = u @ v" "run ?R (rev u, v) = q # qs" "m = take (length v - length (snd q)) v"
    and least: "\<And>u' v'. txt = u' @ v' \<Longrightarrow> length u' < length u \<Longrightarrow> run ?R (rev u', v') = []"
    by auto
  from h(2) have "q \<in> set (run ?R (rev u, v))" by simp
  then obtain m' where m': "v = m' @ snd q" "candidate_at u m' (snd q)"
    unfolding run_cc by blast
  from h(3) m'(1) have "m = m'" by simp
  have "\<forall>pre' m2 suf'. txt = pre' @ m2 @ suf' \<and> candidate_at pre' m2 suf'
           \<longrightarrow> length u \<le> length pre'"
  proof (intro allI impI)
    fix pre' m2 suf' assume c: "txt = pre' @ m2 @ suf' \<and> candidate_at pre' m2 suf'"
    show "length u \<le> length pre'"
    proof (rule ccontr)
      assume "\<not> length u \<le> length pre'"
      then have "run ?R (rev pre', m2 @ suf') = []" using least c by simp
      moreover have "(rev m2 @ rev pre', suf') \<in> set (run ?R (rev pre', m2 @ suf'))"
        unfolding run_cc using c by simp
      ultimately show False by simp
    qed
  qed
  with h(1) m' \<open>m = m'\<close> show ?thesis
    unfolding first_candidate_def by blast
qed

lemma first_search_cc:
  assumes "first_candidate txt m"
  shows "search weak_credit_card_regex txt = Some m"
proof -
  let ?R = weak_credit_card_regex
  from assms obtain pre suf where t: "txt = pre @ m @ suf" and c: "candidate_at pre m suf"
    and least: "\<And>pre' m' suf'. txt = pre' @ m' @ suf' \<Longrightarrow> candidate_at pre' m' suf'
           \<Longrightarrow> length pre \<le> length pre'"
    unfolding first_candidate_def by blast
  have "(rev m @ rev pre, suf) \<in> set (run ?R (rev pre, m @ suf))"
    unfolding run_cc using c by simp
  then obtain q qs where r: "run ?R (rev pre, m @ suf) = q # qs"
    by (cases "run ?R (rev pre, m @ suf)") auto
  then have "q \<in> set (run ?R (rev pre, m @ suf))" by simp
  then obtain m' where m': "m @ suf = m' @ snd q" "candidate_at pre m' (snd q)"
    unfolding run_cc by blast
  have "m = m'"
    using cc_unique [OF _ _ m'(1)] c m'(2) by (simp add: candidate_at_def)
  with m'(1) have q: "snd q = suf" by simp
  have "run ?R (rev u', v') = []" if "txt = u' @ v'" "length u' < length pre" for u' v'
  proof (rule ccontr)
    assume "run ?R (rev u', v') \<noteq> []"
    then obtain q' where "q' \<in> set (run ?R (rev u', v'))"
      by (cases "run ?R (rev u', v')") auto
    then obtain m2 where "v' = m2 @ snd q'" "candidate_at u' m2 (snd q')"
      unfolding run_cc by blast
    with that(1) least [of u' m2 "snd q'"] have "length pre \<le> length u'" by simp
    with that(2) show False by simp
  qed
  then have "search_from ?R [] txt = Some (take (length (m @ suf) - length (snd q)) (m @ suf))"
    using search_from_first [of "txt" "pre" "m @ suf" ?R "[]" "q" "qs"] t r by simp
  then show ?thesis by (simp add: search_def q)
qed

lemma search_cc_iff: "search weak_credit_card_regex txt = Some m \<longleftrightarrow> first_candidate txt m"
  using search_cc_first first_search_cc by blast

lemma sanitize_filter: "sanitize s = filter (\<lambda>x. x \<noteq> CHR ''-'' \<and> x \<noteq> CHR '' '') s"
proof -
  have r: "remove_char c t = t" if "c \<notin> set t" for c t
    using that by (auto simp: remove_char_def filter_id_conv)
  have "sanitize s = remove_char CHR '' '' (remove_char CHR ''-'' s)"
    by (simp add: sanitize_def Let_def r)
  then show ?thesis by (simp add: remove_char_def conj_commute)
qed

lemma group_chars: "digit_group lo hi g \<Longrightarrow> c \<in> set g \<Longrightarrow> is_digit c"
  by (simp add: digit_group_def list_all_iff)

lemma sep_chars: "optional_sep s \<Longrightarrow> c \<in> set s \<Longrightarrow> c = CHR ''-'' \<or> c = CHR '' ''"
  by (auto simp: optional_sep_def)

lemma cc_shape_chars:
  assumes "cc_shape m" "c \<in> set m"
  shows "is_digit c \<or> c = CHR ''-'' \<or> c = CHR '' ''"
proof -
  from assms(1) obtain p s1 g2 s2 g3 s3 g4 where m: "m = p @ s1 @ g2 @ s2 @ g3 @ s3 @ g4"
    and g: "weak_prefix p" "optional_sep s1" "digit_group 3 4 g2" "optional_sep s2"
      "digit_group 3 4 g3" "optional_sep s3" "digit_group 3 5 g4"
    unfolding cc_shape_def by blast
  from assms(2) m have "c \<in> set p \<or> c \<in> set s1 \<or> c \<in> set g2 \<or> c \<in> set s2 \<or> c \<in> set g3
      \<or> c \<in> set s3 \<or> c \<in> set g4" by simp
  then show ?thesis
    using group_chars [OF weak_prefix_group [OF g(1)]] group_chars [OF g(3)] group_chars [OF g(5)]
      group_chars [OF g(7)] sep_chars [OF g(2)] sep_chars [OF g(4)] sep_chars [OF g(6)]
    by blast
qed

lemma sep_not_digit: "\<not> is_digit CHR ''-''" "\<not> is_digit CHR '' ''"
  by (simp_all add: is_digit_def code_def)

lemma cc_shape_sanitize:
  assumes "cc_shape m"
  shows "sanitize m = filter is_digit m"
  unfolding sanitize_filter
proof (rule filter_cong [OF refl])
  fix c assume "c \<in> set m"
  from cc_shape_chars [OF assms this] sep_not_digit
  show "(c \<noteq> CHR ''-'' \<and> c \<noteq> CHR '' '') = is_digit c" by auto
qed

lemma cc_shape_digits:
  assumes "cc_shape m"
  shows "list_all is_digit (sanitize m) \<and> 13 \<le> length (sanitize m) \<and> length (sanitize m) \<le> 17"
  using cc_shape_ndig [OF assms]
  by (simp add: cc_shape_sanitize [OF assms] ndig_def list_all_iff)

lemma first_candidate_shape: "first_candidate txt m \<Longrightarrow> cc_shape m"
  by (auto simp: first_candidate_def candidate_at_def)

lemma credit_card_detect_eq:
  "credit_card_detect txt =
     Inr (\<exists>m. first_candidate txt m \<and> luhn_checksum (sanitize m) = Inr True)"
proof (cases "search weak_credit_card_regex txt")
  case None
  then have "\<not> (\<exists>m. first_candidate txt m)" by (simp add: search_cc_iff [symmetric])
  with None show ?thesis by (simp add: credit_card_detect_def)
next
  case (Some m)
  then have f: "first_candidate txt m" by (simp add: search_cc_iff)
  have only: "m' = m" if "first_candidate txt m'" for m'
    using that Some by (simp add: search_cc_iff [symmetric])
  from cc_shape_digits [OF first_candidate_shape [OF f]] luhn_checksum_total
  obtain b where b: "luhn_checksum (sanitize m) = Inr b" by blast
  have "b = (\<exists>m. first_candidate txt m \<and> luhn_checksum (sanitize m) = Inr True)"
  proof (cases b)
    case True
    with b have "luhn_checksum (sanitize m) = Inr True" by simp
    with f True show ?thesis by blast
  next
    case False
    have "\<not> (first_candidate txt m' \<and> luhn_checksum (sanitize m') = Inr True)" for m'
    proof
      assume h: "first_candidate txt m' \<and> luhn_checksum (sanitize m') = Inr True"
      then have "m' = m" using only by blast
      with h b False show False by simp
    qed
    with False show ?thesis by blast
  qed
  moreover have "credit_card_detect txt = Inr b"
    by (simp add: credit_card_detect_def Some b)
  ultimately show ?thesis by (simp only:)
qed

text \<open>
  C1, as the code has it: the credit-card detector reports found exactly when the
  leftmost candidate of the text passes the Luhn checksum once \<open>-\<close> and space are
  removed. A candidate is a whole token made of four digits that start with 4, 50 to
  55, 6, 1 or 3, and then three groups of 3 to 4, 3 to 4 and 3 to 5 digits, each
  optionally preceded by one \<open>-\<close> or space: 13 to 17 digits. A text without a
  candidate, or whose leftmost candidate fails the checksum, is reported not-found; the
  detector never raises.
\<close>

theorem credit_card_detect_first_candidate:
  "credit_card_detect txt =
     Inr (\<exists>m. first_candidate txt m \<and> luhn_checksum (sanitize m) = Inr True)
   \<and> (first_candidate txt m \<longrightarrow>
        list_all is_digit (sanitize m) \<and> 13 \<le> length (sanitize m) \<and> length (sanitize m) \<le> 17)"
proof (rule conjI)
  show "credit_card_detect txt =
     Inr (\<exists>m. first_candidate txt m \<and> luhn_checksum (sanitize m) = Inr True)"
    by (rule credit_card_detect_eq)
next
  show "first_candidate txt m \<longrightarrow>
        list_all is_digit (sanitize m) \<and> 13 \<le> length (sanitize m) \<and> length (sanitize m) \<le> 17"
  proof
    assume "first_candidate txt m"
    then have "cc_shape m" by (rule first_candidate_shape)
    then show "list_all is_digit (sanitize m) \<and> 13 \<le> length (sanitize m) \<and> length (sanitize m) \<le> 17"
      by (rule cc_shape_digits)
  qed
qed

theorem credit_card_detect_first_candidate_witness:
  "credit_card_detect ''card 4111-1111-1111-1111.'' = Inr True
   \<and> first_candidate ''card 4111-1111-1111-1111.'' ''4111-1111-1111-1111''
   \<and> list_all is_digit (sanitize ''4111-1111-1111-1111'')
   \<and> 13 \<le> length (sanitize ''4111-1111-1111-1111'')
   \<and> length (sanitize ''4111-1111-1111-1111'') \<le> 17
   \<and> (\<exists>m. first_candidate ''card 4111-1111-1111-1111.'' m \<and> luhn_checksum (sanitize m) = Inr True)"
proof -
  have a: "credit_card_detect ''card 4111-1111-1111-1111.'' = Inr True" by code_simp
  have "search weak_credit_card_regex ''card 4111-1111-1111-1111.'' = Some ''4111-1111-1111-1111''"
    by code_simp
  then have b: "first_candidate ''card 4111-1111-1111-1111.'' ''4111-1111-1111-1111''"
    by (simp only: search_cc_iff)
  from a b credit_card_detect_first_candidate
    [of "''card 4111-1111-1111-1111.''" "''4111-1111-1111-1111''"]
  show ?thesis by simp
qed

text \<open>
  C9: only the leftmost match of the weak pattern is checked: when the leftmost
  candidate of a text fails the Luhn checksum the detector reports not-found and
  \<open>credit_card_found\<close> stays false for the file, whatever follows the candidate in the
  text, a later candidate with a valid checksum included.
\<close>

theorem first_candidate_only:
  assumes "first_candidate txt m" "luhn_checksum (sanitize m) = Inr False"
  shows "credit_card_detect txt = Inr False
         \<and> (\<exists>info. detect ''Y'' (Some txt) (initial_info\<lparr>scanned := ''Y''\<rparr>)
                      = Inr (info, social_security_detect txt)
                   \<and> \<not> credit_card_found info)"
proof -
  have "\<not> (first_candidate txt m' \<and> luhn_checksum (sanitize m') = Inr True)" for m'
  proof
    assume h: "first_candidate txt m' \<and> luhn_checksum (sanitize m') = Inr True"
    then have "search weak_credit_card_regex txt = Some m'" by (simp add: search_cc_iff)
    moreover have "search weak_credit_card_regex txt = Some m"
      using assms(1) by (simp add: search_cc_iff)
    ultimately have "m' = m" by simp
    with h assms(2) show False by simp
  qed
  then have "(\<exists>m. first_candidate txt m \<and> luhn_checksum (sanitize m) = Inr True) = False"
    by blast
  then have f: "credit_card_detect txt = Inr False"
    unfolding credit_card_detect_eq by (rule arg_cong)
  then have "\<exists>info. detect ''Y'' (Some txt) (initial_info\<lparr>scanned := ''Y''\<rparr>)
                      = Inr (info, social_security_detect txt)
                   \<and> \<not> credit_card_found info"
    by (simp add: detect_def initial_info_def)
  with f show ?thesis by (rule conjI)
qed

theorem first_candidate_only_witness:
  "first_candidate ''4111111111111112 4111111111111111'' ''4111111111111112''
   \<and> luhn_checksum (sanitize ''4111111111111112'') = Inr False
   \<and> candidate_at ''4111111111111112 '' ''4111111111111111'' []
   \<and> luhn_checksum (sanitize ''4111111111111111'') = Inr True
   \<and> credit_card_detect ''4111111111111112 4111111111111111'' = Inr False"
proof -
  have "search weak_credit_card_regex ''4111111111111112 4111111111111111''
          = Some ''4111111111111112''"
    by code_simp
  then have a: "first_candidate ''4111111111111112 4111111111111111'' ''4111111111111112''"
    by (simp only: search_cc_iff)
  have b: "luhn_checksum (sanitize ''4111111111111112'') = Inr False" by code_simp
  have "search weak_credit_card_regex ''4111111111111111'' = Some ''4111111111111111''"
    by code_simp
  then have "cc_shape ''4111111111111111''"
    by (simp only: search_cc_iff first_candidate_shape)
  moreover have "no_word_before ''4111111111111112 ''" "no_word_after []"
    by (simp_all add: no_word_before_def no_word_after_def is_word_def code_def)
  ultimately have c: "candidate_at ''4111111111111112 '' ''4111111111111111'' []"
    by (simp only: candidate_at_def simp_thms)
  have d: "luhn_checksum (sanitize ''4111111111111111'') = Inr True" by code_simp
  from first_candidate_only [OF a b]
  have e: "credit_card_detect ''4111111111111112 4111111111111111'' = Inr False"
    by (rule conjunct1)
  from a b c d e show ?thesis by (simp only: simp_thms)
qed

text \<open>
  The claim C1 as the specification states it fails on the text
  \<open>4111111111111112 4111111111111111\<close>: it contains the candidate 4111111111111111
  of the specification, whose checksum is valid, yet the detector reports not-found,
  because the leftmost match 4111111111111112 fails the checksum.
\<close>

theorem later_valid_candidate_missed:
  "spec_candidate ''4111111111111111''
   \<and> luhn_checksum (sanitize ''4111111111111111'') = Inr True
   \<and> credit_card_detect (''4111111111111112 '' @ ''4111111111111111'') = Inr False"
  by code_simp

text \<open>The pattern admits at most 17 digits, so a 19-digit number with a valid checksum
  is not found; and the prefix class of 5 is 50 to 55, so a number that starts with 50
  is found.\<close>

lemma long_number_missed:
  "luhn_checksum ''4111111111111111110'' = Inr True
   \<and> credit_card_detect ''4111111111111111110'' = Inr False"
  by code_simp

lemma prefix_50_found:
  "\<not> spec_prefix ''5000000000000009''
   \<and> credit_card_detect ''5000000000000009'' = Inr True"
  by code_simp

section \<open>Properties of the extraction client and the orchestrator\<close>

lemma content_scan_cases:
  "content_scan f p =
     (case f p of
        Raises \<Rightarrow> (''NA'', Some [])
      | Response st c \<Rightarrow>
          (if falsy c \<or> st = Some 204 then ''N''
           else if st = Some 200 then ''Y'' else ''NA'', c))"
  by (simp add: content_scan_def Let_def split: tika_response.splits)

lemma content_scan_Y:
  "fst (content_scan f p) = ''Y'' \<Longrightarrow> \<exists>txt. snd (content_scan f p) = Some txt \<and> txt \<noteq> []"
  by (auto simp: content_scan_cases falsy_def split: tika_response.splits if_splits)

lemma outcome_Y:
  "fst (outcome w p) = ''Y'' \<Longrightarrow> \<exists>txt. snd (outcome w p) = Some txt \<and> txt \<noteq> []"
  by (auto simp: outcome_def future_result_def content_scan_Y split: if_splits)

lemma credit_card_detect_total: "\<exists>b. credit_card_detect txt = Inr b"
  using credit_card_detect_eq by blast

lemma detect_findings:
  assumes "info0 = initial_info \<or> info0 = findings w p"
  shows "detect (fst (outcome w p)) (snd (outcome w p)) (info0\<lparr>scanned := fst (outcome w p)\<rparr>)
         = Inr (findings w p, flagged (findings w p))"
proof (cases "fst (outcome w p) = ''Y''")
  case y: True
  from outcome_Y [OF y] obtain t where c: "snd (outcome w p) = Some t" by blast
  obtain b where b: "credit_card_detect t = Inr b"
    using credit_card_detect_total by blast
  from assms show ?thesis
  proof
    assume "info0 = initial_info"
    then show ?thesis
      by (simp add: detect_def y c b findings_def flagged_def initial_info_def Let_def)
  next
    assume "info0 = findings w p"
    then show ?thesis
      by (simp add: detect_def y c b findings_def flagged_def Let_def)
  qed
next
  case n: False
  from assms show ?thesis
  proof
    assume "info0 = initial_info"
    then show ?thesis
      by (simp add: detect_def n findings_def flagged_def initial_info_def Let_def)
  next
    assume "info0 = findings w p"
    then show ?thesis
      by (simp add: detect_def n findings_def flagged_def Let_def)
  qed
qed

lemma scan_future_step:
  assumes "p \<in> set (walk w)"
  shows "scan_future w p (state_after w D) = Inr (state_after w (insert p D))"
proof -
  let ?info0 = "if p \<in> D then findings w p else initial_info"
  have d: "detect (fst (outcome w p)) (snd (outcome w p)) (?info0\<lparr>scanned := fst (outcome w p)\<rparr>)
         = Inr (findings w p, flagged (findings w p))"
    by (rule detect_findings) simp
  have o: "(case future_result w p of Inl e \<Rightarrow> (''NA'', Some []) | Inr r \<Rightarrow> r)
             = (fst (outcome w p), snd (outcome w p))"
    by (simp add: outcome_def)
  have "scan_future w p (state_after w D) =
        Inr ((fst (state_after w D))(p \<mapsto> findings w p),
             if flagged (findings w p)
             then (snd (state_after w D))(p \<mapsto> entry_of (findings w p))
             else snd (state_after w D))"
    unfolding scan_future_def o
    using assms d by (simp add: state_after_def entry_of_def case_prod_beta)
  also have "\<dots> = Inr (state_after w (insert p D))"
    using assms by (auto simp: state_after_def fun_eq_iff)
  finally show ?thesis .
qed

lemma scan_futures_steps:
  "set ps \<subseteq> set (walk w) \<Longrightarrow>
   scan_futures w ps (state_after w D) = Inr (state_after w (D \<union> set ps))"
proof (induction ps arbitrary: D)
  case Nil
  then show ?case by simp
next
  case (Cons p ps)
  then have "p \<in> set (walk w)" "set ps \<subseteq> set (walk w)" by simp_all
  with Cons.IH [of "insert p D"] show ?case
    by (simp add: scan_future_step)
qed

lemma initial_state:
  "(map_of (map (\<lambda>file_path. (file_path, initial_info)) (walk w)), Map.empty) = state_after w {}"
proof -
  have m: "map_of (map (\<lambda>file_path. (file_path, initial_info)) ps) q
          = (if q \<in> set ps then Some initial_info else None)" for ps q
    by (induction ps) simp_all
  show ?thesis by (simp add: state_after_def fun_eq_iff m)
qed

lemma scan_run_eq:
  assumes "set (completed w) \<subseteq> set (walk w)"
  shows "scan_run w =
         (if set (walk w) \<subseteq> set (completed w) then Inr (state_after w (set (completed w)))
          else Inl TimeoutError)"
proof (cases "walk w = []")
  case True
  with assms have "completed w = []" by simp
  with True show ?thesis
    using initial_state [of w] by (simp add: scan_run_def Let_def)
next
  case False
  then show ?thesis
    using scan_futures_steps [OF assms, of "{}"]
    by (simp add: scan_run_def Let_def initial_state)
qed


lemma findings_not_Y: "scanned (findings w p) \<noteq> ''Y'' \<Longrightarrow> \<not> flagged (findings w p)"
  by (simp add: findings_def flagged_def Let_def)

lemma findings_cong:
  "from_file w1 = from_file w2 \<Longrightarrow> worker_fails w1 = worker_fails w2 \<Longrightarrow>
   findings w1 p = findings w2 p"
  by (simp add: findings_def outcome_def future_result_def)

lemma main_eq:
  assumes "set (completed w) \<subseteq> set (walk w)"
  shows "main_file_scan_interface w =
         (if set (walk w) \<subseteq> set (completed w)
          then Inr (snd (state_after w (set (completed w))))
          else Inl TimeoutError)"
  by (simp add: main_file_scan_interface_def scan_run_eq [OF assms])

text \<open>
  C4: the claim maps every status other than 200 and 204 to \<open>NA\<close>, as the comment of
  line 55 does. When the service answers with status 422 and no content, the test of
  line 58 overwrites the \<open>NA\<close> of line 56 and \<open>content_scan\<close> returns \<open>N\<close>; with the same
  status and some content it returns \<open>NA\<close>.
\<close>

theorem content_scan_bad_status_empty:
  "content_scan (\<lambda>p. Response (Some 422) None) ''scan.pdf'' = (''N'', None)
   \<and> content_scan (\<lambda>p. Response (Some 422) (Some ''x'')) ''scan.pdf'' = (''NA'', Some ''x'')"
  by (simp add: content_scan_def falsy_def)

text \<open>
  C5: the claim has the scan end normally, with the report of the completed files, when
  the budget ends with tasks pending. In the run \<open>scenario_timeout\<close> the file
  \<open>a.txt\<close> completes and \<open>b.txt\<close> is pending after 180 seconds: the
  \<open>TimeoutError\<close> of \<^verbatim>\<open>as_completed\<close> leaves \<open>main_file_scan_interface\<close> and no report is
  returned.
\<close>

theorem timeout_raises:
  "main_file_scan_interface scenario_timeout = Inl TimeoutError"
  by (simp add: main_eq scenario_timeout_def)

text \<open>
  C7: in a run in which every future completes within the budget, a path is a key of
  the report exactly when its final \<open>file_info\<close> has \<open>social_security_found\<close> or
  \<open>credit_card_found\<close> set; a file whose status is not \<open>Y\<close> (failed extraction, no
  content) is not in the report; and every entry gives each category as \<open>Yes\<close> or \<open>No\<close>,
  as the flag says.
\<close>

theorem report_iff_flagged:
  assumes "set (completed w) = set (walk w)"
  shows "\<exists>infos report.
           scan_run w = Inr (infos, report) \<and> main_file_scan_interface w = Inr report
           \<and> (\<forall>p. (p \<in> dom report) =
                 (\<exists>info. infos p = Some info \<and> (social_security_found info \<or> credit_card_found info)))
           \<and> (\<forall>p info. infos p = Some info \<and> scanned info \<noteq> ''Y'' \<longrightarrow> p \<notin> dom report)
           \<and> (\<forall>p e. report p = Some e \<longrightarrow>
                 (\<exists>info. infos p = Some info
                    \<and> report_credit_card_found e = (if credit_card_found info then ''Yes'' else ''No'')
                    \<and> report_social_security_found e =
                        (if social_security_found info then ''Yes'' else ''No'')))"
proof -
  let ?D = "set (completed w)"
  let ?infos = "fst (state_after w ?D)"
  let ?report = "snd (state_after w ?D)"
  from assms have sub: "?D \<subseteq> set (walk w)" and all: "set (walk w) \<subseteq> ?D" by simp_all
  have run: "scan_run w = Inr (?infos, ?report)"
    using all by (simp add: scan_run_eq [OF sub])
  have main: "main_file_scan_interface w = Inr ?report"
    using all by (simp add: main_eq [OF sub])
  have nf: "\<not> flagged initial_info" by (simp add: flagged_def initial_info_def)
  have a: "(p \<in> dom ?report) =
        (\<exists>info. ?infos p = Some info \<and> (social_security_found info \<or> credit_card_found info))" for p
    using sub nf by (auto simp: state_after_def flagged_def dom_def split: if_splits)
  have b: "p \<notin> dom ?report" if "?infos p = Some info \<and> scanned info \<noteq> ''Y''" for p info
    using that findings_not_Y [of w p] by (auto simp: state_after_def dom_def split: if_splits)
  have c: "\<exists>info. ?infos p = Some info
                    \<and> report_credit_card_found e = (if credit_card_found info then ''Yes'' else ''No'')
                    \<and> report_social_security_found e =
                        (if social_security_found info then ''Yes'' else ''No'')"
    if "?report p = Some e" for p e
    using that sub by (auto simp: state_after_def entry_of_def yes_no_def split: if_splits)
  from run main a b c show ?thesis by blast
qed

lemma scenario_findings:
  "findings scenario ''a.txt'' =
     \<lparr>scanned = ''Y'', credit_card_found = False, social_security_found = True\<rparr>"
  "findings scenario ''b.txt'' =
     \<lparr>scanned = ''Y'', credit_card_found = False, social_security_found = False\<rparr>"
  "findings scenario ''c.txt'' =
     \<lparr>scanned = ''Y'', credit_card_found = False, social_security_found = False\<rparr>"
  by code_simp+

lemma scenario_report:
  "snd (state_after scenario (set (completed scenario))) ''a.txt''
     = Some \<lparr>report_credit_card_found = ''No'', report_social_security_found = ''Yes''\<rparr>"
  "snd (state_after scenario (set (completed scenario))) ''b.txt'' = None"
  "snd (state_after scenario (set (completed scenario))) ''c.txt'' = None"
  by (simp_all add: state_after_def scenario_findings flagged_def entry_of_def yes_no_def)
     (simp_all add: scenario_def)

theorem report_iff_flagged_witness:
  "set (completed scenario) = set (walk scenario)
   \<and> (\<exists>infos report.
         scan_run scenario = Inr (infos, report) \<and> main_file_scan_interface scenario = Inr report
         \<and> report ''a.txt'' = Some \<lparr>report_credit_card_found = ''No'',
                                     report_social_security_found = ''Yes''\<rparr>
         \<and> report ''b.txt'' = None \<and> report ''c.txt'' = None
         \<and> (\<forall>p. (p \<in> dom report) =
               (\<exists>info. infos p = Some info \<and> (social_security_found info \<or> credit_card_found info))))"
proof -
  have h: "set (completed scenario) = set (walk scenario)" by (auto simp: scenario_def)
  from report_iff_flagged [OF h] obtain infos report where
    r: "scan_run scenario = Inr (infos, report)" "main_file_scan_interface scenario = Inr report"
       "\<forall>p. (p \<in> dom report) =
               (\<exists>info. infos p = Some info \<and> (social_security_found info \<or> credit_card_found info))"
    by blast
  from r(2) h have "report = snd (state_after scenario (set (completed scenario)))"
    by (simp add: main_eq)
  with scenario_report have
    "report ''a.txt'' = Some \<lparr>report_credit_card_found = ''No'',
                              report_social_security_found = ''Yes''\<rparr>"
    "report ''b.txt'' = None" "report ''c.txt'' = None"
    by simp_all
  with h r show ?thesis by blast
qed




text \<open>
  C8: two runs over the same set of files, with the same behaviour of the service and of
  the futures for every path, in both of which every future completes within the budget,
  return the same report, whatever the order in which the walker lists the files and the
  futures complete.
\<close>

theorem scan_report_deterministic:
  assumes "set (walk w1) = set (walk w2)"
    and "from_file w1 = from_file w2" "worker_fails w1 = worker_fails w2"
    and "set (completed w1) = set (walk w1)" "set (completed w2) = set (walk w2)"
  shows "\<exists>report. main_file_scan_interface w1 = Inr report
                 \<and> main_file_scan_interface w2 = Inr report"
proof -
  have 1: "main_file_scan_interface w1 = Inr (snd (state_after w1 (set (walk w1))))"
    using assms(4) main_eq [of w1] by simp
  have 2: "main_file_scan_interface w2 = Inr (snd (state_after w2 (set (walk w2))))"
    using assms(5) main_eq [of w2] by simp
  have "snd (state_after w1 (set (walk w1))) = snd (state_after w2 (set (walk w2)))"
    using assms(1) findings_cong [OF assms(2,3)] by (simp add: state_after_def fun_eq_iff)
  with 1 2 show ?thesis by simp
qed

theorem scan_report_deterministic_witness:
  "set (walk scenario) = set (walk scenario_again)
   \<and> from_file scenario = from_file scenario_again
   \<and> worker_fails scenario = worker_fails scenario_again
   \<and> set (completed scenario) = set (walk scenario)
   \<and> set (completed scenario_again) = set (walk scenario_again)
   \<and> walk scenario \<noteq> walk scenario_again
   \<and> completed scenario \<noteq> completed scenario_again
   \<and> (\<exists>report. main_file_scan_interface scenario = Inr report
               \<and> main_file_scan_interface scenario_again = Inr report)"
proof -
  have h: "set (walk scenario) = set (walk scenario_again)"
    "from_file scenario = from_file scenario_again"
    "worker_fails scenario = worker_fails scenario_again"
    "set (completed scenario) = set (walk scenario)"
    "set (completed scenario_again) = set (walk scenario_again)"
    by (auto simp: scenario_def scenario_again_def)
  have d: "walk scenario \<noteq> walk scenario_again" "completed scenario \<noteq> completed scenario_again"
    by (simp_all add: scenario_def scenario_again_def)
  from scan_report_deterministic [OF h] h d show ?thesis by blast
qed

end
